theory Spec2Isabelle
  imports Main "HOL-Library.Word"
begin

section \<open>The sliding window protocol of swp.py\<close>

text \<open>
  A shallow embedding of \<^verbatim>\<open>swp.py\<close>: the packet codec \<^verbatim>\<open>SWPPacket\<close>, the sender
  \<^verbatim>\<open>SWPSender\<close> and the receiver \<^verbatim>\<open>SWPReceiver\<close>.

  Python integers are \<open>int\<close>, a \<^verbatim>\<open>bytes\<close> value is a list of 8-bit words, a dictionary
  is an association list in insertion order (the receiver iterates over its
  \<^verbatim>\<open>OrderedDict\<close>, so the order is part of the behaviour). Every exception of the
  source is a value of \<open>error\<close>. The threads of the source are not modelled: each
  operation (one call of \<^verbatim>\<open>_send\<close>, one iteration of a \<^verbatim>\<open>_recv\<close> loop, one call of
  \<^verbatim>\<open>_retransmit\<close>) is one atomic step on the state of its object, and the datagrams
  handed to the link endpoint are collected in a list.
\<close>

subsection \<open>Bytes, errors, dictionaries\<close>

type_synonym byte = "8 word"
type_synonym bytes = "byte list"

datatype error =
    StructError   \<comment> \<open>\<^verbatim>\<open>struct.error\<close>, from \<^verbatim>\<open>struct.pack\<close> and \<^verbatim>\<open>struct.unpack\<close>\<close>
  | ValueError    \<comment> \<open>from \<^verbatim>\<open>SWPType(...)\<close> and from \<^verbatim>\<open>BoundedSemaphore.release\<close>\<close>
  | TypeError     \<comment> \<open>from unpacking or subscripting \<^verbatim>\<open>None\<close>\<close>

text \<open>\<^verbatim>\<open>d[k] = v\<close>: an existing key keeps its place, a new key goes to the end.\<close>

fun dict_set :: "('k \<times> 'v) list \<Rightarrow> 'k \<Rightarrow> 'v \<Rightarrow> ('k \<times> 'v) list" where
  "dict_set [] k v = [(k, v)]"
| "dict_set ((k', v') # d) k v =
     (if k' = k then (k, v) # d else (k', v') # dict_set d k v)"

text \<open>\<^verbatim>\<open>d.keys()\<close>, \<^verbatim>\<open>k in d\<close> and \<^verbatim>\<open>d.get(k)\<close>.\<close>

definition dict_keys :: "('k \<times> 'v) list \<Rightarrow> 'k list" where
  "dict_keys d = map fst d"

definition dict_contains :: "('k \<times> 'v) list \<Rightarrow> 'k \<Rightarrow> bool" where
  "dict_contains d k = (k \<in> set (dict_keys d))"

definition dict_get :: "('k \<times> 'v) list \<Rightarrow> 'k \<Rightarrow> 'v option" where
  "dict_get d k = map_of d k"

subsection \<open>SWPType and SWPPacket\<close>

datatype SWPType = DATA | ACK

fun SWPType_value :: "SWPType \<Rightarrow> int" where
  "SWPType_value DATA = 68"   \<comment> \<open>\<^verbatim>\<open>ord('D')\<close>\<close>
| "SWPType_value ACK = 65"    \<comment> \<open>\<^verbatim>\<open>ord('A')\<close>\<close>

text \<open>\<^verbatim>\<open>SWPType(n)\<close>: the member with that value, \<^verbatim>\<open>ValueError\<close> when there is none.\<close>

definition SWPType_of :: "int \<Rightarrow> error + SWPType" where
  "SWPType_of n =
     (if n = SWPType_value DATA then Inr DATA
      else if n = SWPType_value ACK then Inr ACK
      else Inl ValueError)"

record SWPPacket =
  pkt_type :: SWPType
  pkt_seq_num :: int
  pkt_data :: bytes

definition HEADER_SIZE :: nat where
  "HEADER_SIZE = 5"           \<comment> \<open>\<^verbatim>\<open>struct.calcsize('!BI')\<close>\<close>

definition MAX_DATA_SIZE :: nat where
  "MAX_DATA_SIZE = 1400"

text \<open>
  \<^verbatim>\<open>struct.pack('!BI', t, n)\<close>: one unsigned byte and one unsigned 32-bit integer in
  network byte order, without padding; \<^verbatim>\<open>struct.error\<close> when an argument is out of
  the range of its format.
\<close>

definition pack_BI :: "int \<Rightarrow> int \<Rightarrow> error + bytes" where
  "pack_BI t n =
     (if 0 \<le> t \<and> t < 256 \<and> 0 \<le> n \<and> n < 2 ^ 32
      then Inr [word_of_int t,
                word_of_int (n div 2 ^ 24), word_of_int (n div 2 ^ 16),
                word_of_int (n div 2 ^ 8), word_of_int n]
      else Inl StructError)"

text \<open>
  \<^verbatim>\<open>struct.unpack('!BI', buf)\<close>: \<^verbatim>\<open>struct.error\<close> unless the buffer has exactly the
  five bytes of the format.
\<close>

definition unpack_BI :: "bytes \<Rightarrow> error + int \<times> int" where
  "unpack_BI buf =
     (case buf of
        [t, b3, b2, b1, b0] \<Rightarrow>
          Inr (uint t, uint b3 * 2 ^ 24 + uint b2 * 2 ^ 16 + uint b1 * 2 ^ 8 + uint b0)
      | _ \<Rightarrow> Inl StructError)"

definition to_bytes :: "SWPPacket \<Rightarrow> error + bytes" where
  "to_bytes p =
     (case pack_BI (SWPType_value (pkt_type p)) (pkt_seq_num p) of
        Inl e \<Rightarrow> Inl e
      | Inr header \<Rightarrow> Inr (header @ pkt_data p))"

definition from_bytes :: "bytes \<Rightarrow> error + SWPPacket" where
  "from_bytes raw =
     (case unpack_BI (take HEADER_SIZE raw) of
        Inl e \<Rightarrow> Inl e
      | Inr header \<Rightarrow>
          (case SWPType_of (fst header) of
             Inl e \<Rightarrow> Inl e
           | Inr type \<Rightarrow>
               Inr \<lparr>pkt_type = type, pkt_seq_num = snd header,
                    pkt_data = drop HEADER_SIZE raw\<rparr>))"

text \<open>
  The number that a byte string is in network byte order (big-endian), to state what
  the four bytes after the type tag are.
\<close>

definition be_value :: "bytes \<Rightarrow> int" where
  "be_value bs = foldl (\<lambda>a b. a * 256 + uint b) 0 bs"

subsection \<open>Outcomes of an operation\<close>

text \<open>
  An operation returns (\<open>Done\<close>, with the state it leaves), waits for ever on the
  semaphore or on the empty queue (\<open>Blocks\<close>: the state is as it was, since the
  source waits before it changes anything), or raises an exception that nothing in
  \<^verbatim>\<open>swp.py\<close> catches (\<open>Raises\<close>, with the state at the raise).
\<close>

datatype 'a outcome = Done 'a | Blocks | Raises error 'a

subsection \<open>SWPSender\<close>

definition SEND_WINDOW_SIZE :: nat where
  "SEND_WINDOW_SIZE = 5"

text \<open>
  The fields of \<^verbatim>\<open>SWPSender\<close>. \<open>send_window_not_full\<close> is the value of the bounded
  semaphore. A buffer entry is \<^verbatim>\<open>(data, timer)\<close>; a \<^verbatim>\<open>threading.Timer\<close> object is
  identified by its creation number, \<open>timers_created\<close> counts the objects made so far,
  and \<open>timers_running\<close> lists the timers that were started and have neither fired nor
  been cancelled, each with the sequence number it will pass to \<^verbatim>\<open>_retransmit\<close>.
  \<open>llp_sent\<close> lists the datagrams handed to \<^verbatim>\<open>self._llp_endpoint.send\<close>, oldest first.
\<close>

record SWPSender =
  last_ack_received :: int
  last_frame_sent :: int
  last_frame_written :: int
  send_window_not_full :: nat
  buffer :: "(int \<times> bytes \<times> nat) list"
  timers_created :: nat
  timers_running :: "(nat \<times> int) list"
  llp_sent :: "bytes list"

definition SWPSender_init :: SWPSender where
  "SWPSender_init =
     \<lparr>last_ack_received = 0, last_frame_sent = 0, last_frame_written = 0,
      send_window_not_full = SEND_WINDOW_SIZE, buffer = [],
      timers_created = 0, timers_running = [], llp_sent = []\<rparr>"

text \<open>\<^verbatim>\<open>SWPSender._send\<close>.\<close>

definition sender_send1 :: "SWPSender \<Rightarrow> bytes \<Rightarrow> SWPSender outcome" where
  "sender_send1 s data =
     (if send_window_not_full s = 0 then Blocks
      else
        let s1 = s\<lparr>send_window_not_full := send_window_not_full s - 1\<rparr>;
            seq_num = last_frame_sent s1 + 1;
            s2 = s1\<lparr>last_frame_sent := seq_num\<rparr>;
            timer = timers_created s2;
            s3 = s2\<lparr>timers_created := timer + 1\<rparr>;
            s4 = s3\<lparr>buffer := dict_set (buffer s3) seq_num (data, timer)\<rparr>
        in case to_bytes \<lparr>pkt_type = DATA, pkt_seq_num = seq_num, pkt_data = data\<rparr> of
             Inl e \<Rightarrow> Raises e s4
           | Inr bytes \<Rightarrow>
               let s5 = s4\<lparr>llp_sent := llp_sent s4 @ [bytes]\<rparr>
               in Done (s5\<lparr>timers_running := timers_running s5 @ [(timer, seq_num)]\<rparr>))"

text \<open>
  \<^verbatim>\<open>SWPSender.send\<close>: the loop \<^verbatim>\<open>for i in range(0, len(data), MAX_DATA_SIZE)\<close>, from the
  offset \<open>i\<close> on. When \<^verbatim>\<open>_send\<close> waits for a permit the call is suspended at that offset,
  and goes on from there (in whatever state the sender is by then) once a permit is
  released.
\<close>

datatype send_result = Sent SWPSender | Suspended SWPSender nat | Failed error SWPSender

function sender_send_from :: "SWPSender \<Rightarrow> bytes \<Rightarrow> nat \<Rightarrow> send_result" where
  "sender_send_from s data i =
     (if i < length data
      then (case sender_send1 s (take MAX_DATA_SIZE (drop i data)) of
              Done s' \<Rightarrow> sender_send_from s' data (i + MAX_DATA_SIZE)
            | Blocks \<Rightarrow> Suspended s i
            | Raises e s' \<Rightarrow> Failed e s')
      else Sent s)"
  by pat_completeness auto
termination
  by (relation "measure (\<lambda>(s, data, i). length data - i)") (auto simp: MAX_DATA_SIZE_def)

definition sender_send :: "SWPSender \<Rightarrow> bytes \<Rightarrow> send_result" where
  "sender_send s data = sender_send_from s data 0"

text \<open>\<^verbatim>\<open>SWPSender._retransmit\<close>; the lookup is \<^verbatim>\<open>(data, timer) = self._buffer.get(seq_num)\<close>.\<close>

definition sender_retransmit :: "SWPSender \<Rightarrow> int \<Rightarrow> SWPSender outcome" where
  "sender_retransmit s seq_num =
     (case dict_get (buffer s) seq_num of
        None \<Rightarrow> Raises TypeError s
      | Some (data, timer) \<Rightarrow>
          (case to_bytes \<lparr>pkt_type = DATA, pkt_seq_num = seq_num, pkt_data = data\<rparr> of
             Inl e \<Rightarrow> Raises e s
           | Inr bytes \<Rightarrow>
               let s1 = s\<lparr>llp_sent := llp_sent s @ [bytes]\<rparr>;
                   timer = timers_created s1;
                   s2 = s1\<lparr>timers_created := timer + 1\<rparr>
               in Done (s2\<lparr>timers_running := timers_running s2 @ [(timer, seq_num)]\<rparr>)))"

text \<open>\<^verbatim>\<open>BoundedSemaphore.release\<close>, and the loop that calls it once for every \<open>i\<close> of a range.\<close>

definition sem_release :: "SWPSender \<Rightarrow> SWPSender outcome" where
  "sem_release s =
     (if send_window_not_full s \<ge> SEND_WINDOW_SIZE then Raises ValueError s
      else Done (s\<lparr>send_window_not_full := send_window_not_full s + 1\<rparr>))"

fun release_each :: "int list \<Rightarrow> SWPSender \<Rightarrow> SWPSender outcome" where
  "release_each [] s = Done s"
| "release_each (i # is) s =
     (case sem_release s of
        Done s' \<Rightarrow> release_each is s'
      | Blocks \<Rightarrow> Blocks
      | Raises e s' \<Rightarrow> Raises e s')"

text \<open>One iteration of the loop of \<^verbatim>\<open>SWPSender._recv\<close>, on what the link returned.\<close>

definition sender_recv_iter :: "SWPSender \<Rightarrow> bytes option \<Rightarrow> SWPSender outcome" where
  "sender_recv_iter s raw =
     (case raw of
        None \<Rightarrow> Done s
      | Some raw \<Rightarrow>
          (case from_bytes raw of
             Inl e \<Rightarrow> Raises e s
           | Inr packet \<Rightarrow>
               if pkt_type packet \<noteq> ACK then Done s
               else
                 let seq_num = pkt_seq_num packet in
                 if \<not> dict_contains (buffer s) seq_num then Done s
                 else
                   (case dict_get (buffer s) seq_num of
                      None \<Rightarrow> Raises TypeError s
                    | Some (_, timer) \<Rightarrow>
                        let s1 = s\<lparr>timers_running :=
                                     filter (\<lambda>(t, _). t \<noteq> timer) (timers_running s)\<rparr>;
                            current_last_ack = last_ack_received s1;
                            s2 = s1\<lparr>last_ack_received := seq_num\<rparr>;
                            s3 = s2\<lparr>buffer := filter (\<lambda>(k, v). k > seq_num) (buffer s2)\<rparr>
                        in release_each [current_last_ack..seq_num - 1] s3)))"

text \<open>The loop of \<^verbatim>\<open>SWPSender._recv\<close> on the datagrams the link returns, in order.\<close>

fun sender_recv :: "SWPSender \<Rightarrow> bytes option list \<Rightarrow> SWPSender outcome" where
  "sender_recv s [] = Done s"
| "sender_recv s (raw # raws) =
     (case sender_recv_iter s raw of
        Done s' \<Rightarrow> sender_recv s' raws
      | Blocks \<Rightarrow> Blocks
      | Raises e s' \<Rightarrow> Raises e s')"

text \<open>
  What happens to a sender: the application calls \<^verbatim>\<open>_send\<close> (through \<^verbatim>\<open>send\<close>), the
  receive thread reads a datagram, or a running timer fires and calls
  \<^verbatim>\<open>_retransmit\<close> with its sequence number. A timer that is not running does not fire.
\<close>

datatype event = Send bytes | Recv "bytes option" | Timeout nat

definition sender_step :: "SWPSender \<Rightarrow> event \<Rightarrow> SWPSender outcome" where
  "sender_step s ev =
     (case ev of
        Send data \<Rightarrow> sender_send1 s data
      | Recv raw \<Rightarrow> sender_recv_iter s raw
      | Timeout t \<Rightarrow>
          (case map_of (timers_running s) t of
             None \<Rightarrow> Done s
           | Some seq_num \<Rightarrow>
               sender_retransmit
                 (s\<lparr>timers_running := filter (\<lambda>(t', _). t' \<noteq> t) (timers_running s)\<rparr>)
                 seq_num))"

fun sender_run :: "SWPSender \<Rightarrow> event list \<Rightarrow> SWPSender outcome" where
  "sender_run s [] = Done s"
| "sender_run s (ev # evs) =
     (case sender_step s ev of
        Done s' \<Rightarrow> sender_run s' evs
      | Blocks \<Rightarrow> Blocks
      | Raises e s' \<Rightarrow> Raises e s')"

text \<open>
  The invariant of the sender: the keys of the buffer are the sequence numbers after
  \<open>last_ack_received\<close> up to \<open>last_frame_sent\<close>, in this order, and every one of them
  holds one of the \<open>SEND_WINDOW_SIZE\<close> permits.
\<close>

definition sender_inv :: "SWPSender \<Rightarrow> bool" where
  "sender_inv s \<longleftrightarrow>
     0 \<le> last_ack_received s \<and> last_ack_received s \<le> last_frame_sent s
     \<and> dict_keys (buffer s) = [last_ack_received s + 1..last_frame_sent s]
     \<and> int (send_window_not_full s) + (last_frame_sent s - last_ack_received s)
         = int SEND_WINDOW_SIZE"

subsection \<open>SWPReceiver\<close>

definition RECV_WINDOW_SIZE :: int where
  "RECV_WINDOW_SIZE = 5"

text \<open>
  The fields of \<^verbatim>\<open>SWPReceiver\<close>: \<open>ready_data\<close> is the queue (its head is what \<^verbatim>\<open>recv\<close>
  returns next), \<open>reorder_buffer\<close> is \<^verbatim>\<open>self._buffer\<close>, and \<open>acks_sent\<close> lists the
  datagrams handed to \<^verbatim>\<open>self._llp_endpoint.send\<close>, oldest first.
\<close>

record SWPReceiver =
  ready_data :: "bytes list"
  last_acceptable_frame :: int
  last_frame_recd :: int
  reorder_buffer :: "(int \<times> bytes) list"
  acks_sent :: "bytes list"

definition SWPReceiver_init :: SWPReceiver where
  "SWPReceiver_init =
     \<lparr>ready_data = [], last_acceptable_frame = 0 + RECV_WINDOW_SIZE,
      last_frame_recd = 0, reorder_buffer = [], acks_sent = []\<rparr>"

text \<open>\<^verbatim>\<open>SWPReceiver.recv\<close>: \<^verbatim>\<open>Queue.get\<close> waits while the queue is empty.\<close>

definition receiver_recv_get :: "SWPReceiver \<Rightarrow> (bytes \<times> SWPReceiver) outcome" where
  "receiver_recv_get r =
     (case ready_data r of
        [] \<Rightarrow> Blocks
      | x # q \<Rightarrow> Done (x, r\<lparr>ready_data := q\<rparr>))"

text \<open>
  The inner \<^verbatim>\<open>while True\<close> of \<^verbatim>\<open>SWPReceiver._recv\<close>, from \<open>i\<close> on: it stops at the first
  number that is not a key of the buffer.
\<close>

function scan :: "(int \<times> bytes) list \<Rightarrow> int \<Rightarrow> int \<Rightarrow> int" where
  "scan buf i seq_num_to_ack =
     (if dict_contains buf i then scan buf (i + 1) i else seq_num_to_ack)"
  by pat_completeness auto
termination
proof (relation "measure (\<lambda>(buf, i, a). length (filter (\<lambda>k. i \<le> k) (dict_keys buf)))")
  show "wf (measure (\<lambda>(buf, i, a). length (filter (\<lambda>k. i \<le> k) (dict_keys buf))))"
    by simp
next
  fix buf :: "(int \<times> bytes) list" and i seq_num_to_ack :: int
  assume "dict_contains buf i"
  then have mem: "i \<in> set (filter (\<lambda>k. i \<le> k) (dict_keys buf))"
    by (simp add: dict_contains_def)
  have "filter (\<lambda>k. i + 1 \<le> k) (dict_keys buf)
        = filter (\<lambda>k. i + 1 \<le> k) (filter (\<lambda>k. i \<le> k) (dict_keys buf))"
    by (auto intro: filter_cong)
  moreover have "length (filter (\<lambda>k. i + 1 \<le> k) (filter (\<lambda>k. i \<le> k) (dict_keys buf)))
        < length (filter (\<lambda>k. i \<le> k) (dict_keys buf))"
    using mem by (intro length_filter_less [of i]) simp_all
  ultimately show "((buf, i + 1, i), (buf, i, seq_num_to_ack))
        \<in> measure (\<lambda>(buf, i, a). length (filter (\<lambda>k. i \<le> k) (dict_keys buf)))"
    by simp
qed

text \<open>
  The loop \<^verbatim>\<open>for k, v in self._buffer.items()\<close>: it goes through the entries in the
  order of the dictionary, which is the order of insertion, and returns the queue and
  \<^verbatim>\<open>new_buffer\<close>.
\<close>

fun deliver ::
  "(int \<times> bytes) list \<Rightarrow> int \<Rightarrow> bytes list \<Rightarrow> (int \<times> bytes) list
     \<Rightarrow> bytes list \<times> (int \<times> bytes) list" where
  "deliver [] seq_num_to_ack q new_buffer = (q, new_buffer)"
| "deliver ((k, v) # items) seq_num_to_ack q new_buffer =
     (if k \<le> seq_num_to_ack
      then deliver items seq_num_to_ack (q @ [v]) new_buffer
      else deliver items seq_num_to_ack q (dict_set new_buffer k v))"

text \<open>
  One iteration of the loop of \<^verbatim>\<open>SWPReceiver._recv\<close>. The source does not test for
  \<^verbatim>\<open>None\<close> here, nor for the type of the packet.
\<close>

definition receiver_recv_iter :: "SWPReceiver \<Rightarrow> bytes option \<Rightarrow> SWPReceiver outcome" where
  "receiver_recv_iter r raw =
     (case raw of
        None \<Rightarrow> Raises TypeError r
      | Some raw \<Rightarrow>
          (case from_bytes raw of
             Inl e \<Rightarrow> Raises e r
           | Inr packet \<Rightarrow>
               let seq_num = pkt_seq_num packet in
               if seq_num \<le> last_frame_recd r \<or> seq_num > last_acceptable_frame r
               then Done r
               else
                 (case to_bytes \<lparr>pkt_type = ACK, pkt_seq_num = last_frame_recd r,
                                 pkt_data = []\<rparr> of
                    Inl e \<Rightarrow> Raises e r
                  | Inr bytes \<Rightarrow>
                      let r1 = r\<lparr>acks_sent := acks_sent r @ [bytes]\<rparr>;
                          r2 = r1\<lparr>reorder_buffer :=
                                     dict_set (reorder_buffer r1) seq_num (pkt_data packet)\<rparr>;
                          seq_num_to_ack =
                            scan (reorder_buffer r2) (last_frame_recd r2 + 1) (last_frame_recd r2);
                          (q, new_buffer) =
                            deliver (reorder_buffer r2) seq_num_to_ack (ready_data r2) [];
                          r3 = r2\<lparr>ready_data := q, reorder_buffer := new_buffer\<rparr>;
                          r4 = r3\<lparr>last_frame_recd := seq_num_to_ack\<rparr>;
                          r5 = r4\<lparr>last_acceptable_frame :=
                                     last_frame_recd r4 + RECV_WINDOW_SIZE\<rparr>
                      in (case to_bytes \<lparr>pkt_type = ACK, pkt_seq_num = last_frame_recd r5,
                                         pkt_data = []\<rparr> of
                            Inl e \<Rightarrow> Raises e r5
                          | Inr bytes \<Rightarrow> Done (r5\<lparr>acks_sent := acks_sent r5 @ [bytes]\<rparr>)))))"

text \<open>The loop of \<^verbatim>\<open>SWPReceiver._recv\<close> on the datagrams the link returns, in order.\<close>

fun receiver_recv :: "SWPReceiver \<Rightarrow> bytes option list \<Rightarrow> SWPReceiver outcome" where
  "receiver_recv r [] = Done r"
| "receiver_recv r (raw # raws) =
     (case receiver_recv_iter r raw of
        Done r' \<Rightarrow> receiver_recv r' raws
      | Blocks \<Rightarrow> Blocks
      | Raises e r' \<Rightarrow> Raises e r')"

section \<open>The packet codec\<close>

lemma be32_arith:
  fixes n :: int
  shows "n div 16777216 * 16777216 + n div 65536 mod 256 * 65536
           + n div 256 mod 256 * 256 + n mod 256 = n"
proof -
  define a where "a = n div 256"
  define b where "b = a div 256"
  define c where "c = b div 256"
  have 1: "n div 65536 = b" "n div 16777216 = c"
    by (simp_all add: a_def b_def c_def zdiv_zmult2_eq)
  have 2: "n = a * 256 + n mod 256" "a = b * 256 + a mod 256" "b = c * 256 + b mod 256"
    by (simp_all add: a_def b_def c_def)
  show ?thesis
    unfolding 1 a_def [symmetric] using 2 by linarith
qed

lemma be32_top:
  fixes n :: int
  assumes "0 \<le> n" "n < 2 ^ 32"
  shows "n div 16777216 mod 256 = n div 16777216"
proof -
  have a: "0 \<le> n div 16777216"
    using assms(1) by (simp add: pos_imp_zdiv_nonneg_iff)
  have "n \<le> 4294967295"
    using assms(2) by simp
  then have "n div 16777216 \<le> 4294967295 div 16777216"
    by (rule zdiv_mono1) simp
  then have b: "n div 16777216 < 256"
    by simp
  show ?thesis
    using a b by (rule mod_pos_pos_trivial)
qed

lemma uint_byte: "uint (word_of_int k :: byte) = k mod 256"
  by (simp add: uint_word_of_int take_bit_eq_mod)

lemma be32_roundtrip:
  fixes n :: int
  assumes "0 \<le> n" "n < 2 ^ 32"
  shows "uint (word_of_int (n div 2 ^ 24) :: byte) * 2 ^ 24
       + uint (word_of_int (n div 2 ^ 16) :: byte) * 2 ^ 16
       + uint (word_of_int (n div 2 ^ 8) :: byte) * 2 ^ 8
       + uint (word_of_int n :: byte) = n"
proof -
  have "uint (word_of_int (n div 2 ^ 24) :: byte) * 2 ^ 24
       + uint (word_of_int (n div 2 ^ 16) :: byte) * 2 ^ 16
       + uint (word_of_int (n div 2 ^ 8) :: byte) * 2 ^ 8
       + uint (word_of_int n :: byte)
     = n div 16777216 * 16777216 + n div 65536 mod 256 * 65536
         + n div 256 mod 256 * 256 + n mod 256"
    by (simp add: uint_byte be32_top [OF assms])
  also have "\<dots> = n"
    by (rule be32_arith)
  finally show ?thesis .
qed

lemma SWPType_of_value: "SWPType_of (SWPType_value t) = Inr t"
  by (cases t) (simp_all add: SWPType_of_def)

lemma uint_SWPType_value: "uint (word_of_int (SWPType_value t) :: byte) = SWPType_value t"
  by (cases t) simp_all

lemma pack_BI_ok:
  assumes "0 \<le> n" "n < 2 ^ 32"
  shows "pack_BI (SWPType_value t) n =
           Inr [word_of_int (SWPType_value t),
                word_of_int (n div 2 ^ 24), word_of_int (n div 2 ^ 16),
                word_of_int (n div 2 ^ 8), word_of_int n]"
  using assms by (cases t) (simp_all add: pack_BI_def)

lemma from_bytes_header:
  "from_bytes (t # b3 # b2 # b1 # b0 # payload) =
     (case SWPType_of (uint t) of
        Inl e \<Rightarrow> Inl e
      | Inr type \<Rightarrow>
          Inr \<lparr>pkt_type = type,
               pkt_seq_num = uint b3 * 2 ^ 24 + uint b2 * 2 ^ 16 + uint b1 * 2 ^ 8 + uint b0,
               pkt_data = payload\<rparr>)"
  by (cases "SWPType_of (uint t)") (simp_all add: from_bytes_def unpack_BI_def HEADER_SIZE_def)

lemma from_bytes_short: "length raw < 5 \<Longrightarrow> from_bytes raw = Inl StructError"
  by (auto simp: from_bytes_def unpack_BI_def HEADER_SIZE_def split: list.splits)

lemma long_list:
  assumes "5 \<le> length (raw :: 'a list)"
  obtains t b3 b2 b1 b0 payload where "raw = t # b3 # b2 # b1 # b0 # payload"
proof -
  from assms obtain t r1 where 1: "raw = t # r1" "4 \<le> length r1" by (cases raw) auto
  then obtain b3 r2 where 2: "r1 = b3 # r2" "3 \<le> length r2" by (cases r1) auto
  then obtain b2 r3 where 3: "r2 = b2 # r3" "2 \<le> length r3" by (cases r2) auto
  then obtain b1 r4 where 4: "r3 = b1 # r4" "1 \<le> length r4" by (cases r3) auto
  then obtain b0 r5 where 5: "r4 = b0 # r5" by (cases r4) auto
  from 1 2 3 4 5 that show thesis by blast
qed

lemma uint_tag_iff: "(uint (t :: byte) = 68) = (t = 0x44)" "(uint (t :: byte) = 65) = (t = 0x41)"
proof -
  have "uint (0x44 :: byte) = 68" "uint (0x41 :: byte) = 65" by simp_all
  then show "(uint t = 68) = (t = 0x44)" "(uint t = 65) = (t = 0x41)"
    by (metis word_uint_eq_iff)+
qed

lemma SWPType_of_uint:
  "SWPType_of (uint (t :: byte)) =
     (if t = 0x44 then Inr DATA else if t = 0x41 then Inr ACK else Inl ValueError)"
  by (simp add: SWPType_of_def uint_tag_iff)

text \<open>
  C5. \<^verbatim>\<open>from_bytes\<close> fails exactly when fewer than 5 bytes are supplied or the first
  byte is neither \<^verbatim>\<open>'D'\<close> (0x44) nor \<^verbatim>\<open>'A'\<close> (0x41); the failure is \<^verbatim>\<open>struct.error\<close> in
  the first case and \<^verbatim>\<open>ValueError\<close> in the second, the two exceptions by which decoding
  a malformed packet fails. Otherwise it returns a packet whose payload is every byte
  after the 5-byte header.
\<close>

theorem from_bytes_fails_iff:
  "((\<exists>e. from_bytes raw = Inl e) \<longleftrightarrow>
      (length raw < 5 \<or> (raw ! 0 \<noteq> 0x44 \<and> raw ! 0 \<noteq> 0x41)))
   \<and> (length raw < 5 \<longrightarrow> from_bytes raw = Inl StructError)
   \<and> (5 \<le> length raw \<and> raw ! 0 \<noteq> 0x44 \<and> raw ! 0 \<noteq> 0x41 \<longrightarrow> from_bytes raw = Inl ValueError)
   \<and> (\<not> (length raw < 5 \<or> (raw ! 0 \<noteq> 0x44 \<and> raw ! 0 \<noteq> 0x41)) \<longrightarrow>
        (\<exists>p. from_bytes raw = Inr p \<and> pkt_data p = drop 5 raw
               \<and> length (pkt_data p) = length raw - 5))"
proof (cases "length raw < 5")
  case True
  then show ?thesis by (simp add: from_bytes_short)
next
  case False
  then have "5 \<le> length raw" by simp
  then obtain t b3 b2 b1 b0 payload where raw: "raw = t # b3 # b2 # b1 # b0 # payload"
    by (rule long_list)
  show ?thesis
    unfolding raw from_bytes_header SWPType_of_uint by simp
qed

theorem from_bytes_fails_iff_witness:
  "from_bytes [0x41, 0, 0, 1, 2, 7, 8] = Inr \<lparr>pkt_type = ACK, pkt_seq_num = 258, pkt_data = [7, 8]\<rparr>
   \<and> from_bytes [0x44, 0, 0, 0, 1] = Inr \<lparr>pkt_type = DATA, pkt_seq_num = 1, pkt_data = []\<rparr>
   \<and> from_bytes [0x44, 0, 0, 0] = Inl StructError
   \<and> from_bytes [0x43, 0, 0, 0, 1, 9] = Inl ValueError"
  using from_bytes_fails_iff [of "[0x41, 0, 0, 1, 2, 7, 8]"]
    from_bytes_fails_iff [of "[0x44, 0, 0, 0, 1]"]
    from_bytes_fails_iff [of "[0x44, 0, 0, 0]"]
    from_bytes_fails_iff [of "[0x43, 0, 0, 0, 1, 9]"]
  by (simp add: from_bytes_header SWPType_of_def from_bytes_short)

text \<open>
  C8. For a packet whose sequence number is an unsigned 32-bit integer, \<^verbatim>\<open>to_bytes\<close>
  returns the 1-byte type tag, the sequence number as 4 bytes in big-endian order and
  the payload (5 bytes of header, then the payload), and \<^verbatim>\<open>from_bytes\<close> of that is the
  packet again.
\<close>

theorem to_bytes_from_bytes:
  assumes "0 \<le> pkt_seq_num p" and "pkt_seq_num p < 2 ^ 32"
  shows "\<exists>bs. to_bytes p = Inr bs \<and> from_bytes bs = Inr p
           \<and> length bs = 5 + length (pkt_data p)
           \<and> uint (bs ! 0) = SWPType_value (pkt_type p)
           \<and> be_value (take 4 (drop 1 bs)) = pkt_seq_num p
           \<and> drop 5 bs = pkt_data p"
proof -
  let ?n = "pkt_seq_num p"
  let ?bs = "word_of_int (SWPType_value (pkt_type p)) # word_of_int (?n div 2 ^ 24)
               # word_of_int (?n div 2 ^ 16) # word_of_int (?n div 2 ^ 8)
               # word_of_int ?n # pkt_data p"
  have enc: "to_bytes p = Inr ?bs"
    by (simp add: to_bytes_def pack_BI_ok [OF assms])
  have dec: "from_bytes ?bs = Inr p"
    unfolding from_bytes_header uint_SWPType_value SWPType_of_value be32_roundtrip [OF assms]
    by simp
  have be: "be_value (take 4 (drop 1 ?bs)) = ?n"
    using be32_roundtrip [OF assms] by (simp add: be_value_def)
  show ?thesis
    using enc dec be by (simp add: uint_SWPType_value)
qed

theorem to_bytes_from_bytes_witness:
  "to_bytes \<lparr>pkt_type = DATA, pkt_seq_num = 258, pkt_data = [7, 8]\<rparr>
     = Inr [0x44, 0, 0, 1, 2, 7, 8]
   \<and> from_bytes [0x44, 0, 0, 1, 2, 7, 8]
     = Inr \<lparr>pkt_type = DATA, pkt_seq_num = 258, pkt_data = [7, 8]\<rparr>"
  using to_bytes_from_bytes [of "\<lparr>pkt_type = DATA, pkt_seq_num = 258, pkt_data = [7, 8]\<rparr>"]
  by (simp add: to_bytes_def pack_BI_def from_bytes_header SWPType_of_def)

section \<open>The receiver\<close>

text \<open>
  C9. When the receive loop reads a segment whose sequence number is at most
  \<^verbatim>\<open>last_frame_recd\<close> or greater than \<^verbatim>\<open>last_acceptable_frame\<close>, the iteration ends at
  \<^verbatim>\<open>continue\<close>: the receiver is as it was (no ACK handed to the link, \<^verbatim>\<open>last_frame_recd\<close>,
  \<^verbatim>\<open>last_acceptable_frame\<close>, the reorder buffer and the queue unchanged), and the loop
  goes on with the next datagram.
\<close>

theorem receiver_discards_outside_window:
  assumes "from_bytes raw = Inr packet"
    and "pkt_seq_num packet \<le> last_frame_recd r \<or> pkt_seq_num packet > last_acceptable_frame r"
  shows "\<exists>r'. receiver_recv_iter r (Some raw) = Done r'
           \<and> acks_sent r' = acks_sent r
           \<and> last_frame_recd r' = last_frame_recd r
           \<and> last_acceptable_frame r' = last_acceptable_frame r
           \<and> reorder_buffer r' = reorder_buffer r
           \<and> ready_data r' = ready_data r
           \<and> r' = r
           \<and> receiver_recv r (Some raw # raws) = receiver_recv r raws"
  using assms by (auto simp: receiver_recv_iter_def Let_def)

theorem receiver_discards_outside_window_witness:
  "receiver_recv_iter SWPReceiver_init (Some [0x44, 0, 0, 0, 6, 0x61]) = Done SWPReceiver_init
   \<and> receiver_recv_iter SWPReceiver_init (Some [0x44, 0, 0, 0, 0, 0x61]) = Done SWPReceiver_init"
  using receiver_discards_outside_window
          [of "[0x44, 0, 0, 0, 6, 0x61]" "\<lparr>pkt_type = DATA, pkt_seq_num = 6, pkt_data = [0x61]\<rparr>"
              SWPReceiver_init]
        receiver_discards_outside_window
          [of "[0x44, 0, 0, 0, 0, 0x61]" "\<lparr>pkt_type = DATA, pkt_seq_num = 0, pkt_data = [0x61]\<rparr>"
              SWPReceiver_init]
  by (simp add: from_bytes_header SWPType_of_def SWPReceiver_init_def RECV_WINDOW_SIZE_def)

lemmas receiver_eval =
  receiver_recv_iter_def SWPReceiver_init_def RECV_WINDOW_SIZE_def from_bytes_header
  SWPType_of_def to_bytes_def pack_BI_def dict_contains_def dict_keys_def Let_def

text \<open>
  C1, on the code. The segments 2, 3 and 1 arrive in this order, with the payloads
  \<^verbatim>\<open>b\<close>, \<^verbatim>\<open>c\<close> and \<^verbatim>\<open>a\<close>. After 2 and 3 nothing is in the queue and both are in the reorder
  buffer. After 1 the buffer is empty and \<^verbatim>\<open>last_frame_recd\<close> is 3, but the queue holds
  the payloads in the order of their insertion into the buffer, \<^verbatim>\<open>b\<close>, \<^verbatim>\<open>c\<close>, \<^verbatim>\<open>a\<close>, which
  is not the ascending order of the sequence numbers.
\<close>

theorem receiver_delivers_in_insertion_order:
  "receiver_recv SWPReceiver_init
     [Some [0x44, 0, 0, 0, 2, 0x62], Some [0x44, 0, 0, 0, 3, 0x63]]
   = Done \<lparr>ready_data = [], last_acceptable_frame = 5, last_frame_recd = 0,
           reorder_buffer = [(2, [0x62]), (3, [0x63])],
           acks_sent = [[0x41, 0, 0, 0, 0], [0x41, 0, 0, 0, 0],
                        [0x41, 0, 0, 0, 0], [0x41, 0, 0, 0, 0]]\<rparr>
   \<and> receiver_recv SWPReceiver_init
     [Some [0x44, 0, 0, 0, 2, 0x62], Some [0x44, 0, 0, 0, 3, 0x63],
      Some [0x44, 0, 0, 0, 1, 0x61]]
   = Done \<lparr>ready_data = [[0x62], [0x63], [0x61]], last_acceptable_frame = 8,
           last_frame_recd = 3, reorder_buffer = [],
           acks_sent = [[0x41, 0, 0, 0, 0], [0x41, 0, 0, 0, 0], [0x41, 0, 0, 0, 0],
                        [0x41, 0, 0, 0, 0], [0x41, 0, 0, 0, 0], [0x41, 0, 0, 0, 3]]\<rparr>"
  by (simp add: receiver_eval)

section \<open>The sender\<close>

lemmas sender_eval =
  sender_step_def sender_send1_def sender_recv_iter_def sender_retransmit_def
  SWPSender_init_def SEND_WINDOW_SIZE_def sem_release_def from_bytes_header from_bytes_short
  SWPType_of_def to_bytes_def pack_BI_def dict_contains_def dict_keys_def dict_get_def Let_def
  upto.simps

text \<open>
  C4, on the code. Two segments are sent, and the ACK for 2 arrives before the ACK
  for 1: the timer of segment 2 is cancelled and the entries 1 and 2 leave the buffer,
  while the timer of segment 1 (timer 0) keeps running. When it fires, \<^verbatim>\<open>_retransmit(1)\<close>
  finds no entry: \<^verbatim>\<open>self._buffer.get(1)\<close> is \<^verbatim>\<open>None\<close>, and unpacking it raises
  \<^verbatim>\<open>TypeError\<close>, after the lock was acquired and before it is released.
\<close>

theorem sender_retransmit_after_purge_raises:
  "sender_run SWPSender_init [Send [0x61], Send [0x62], Recv (Some [0x41, 0, 0, 0, 2])]
   = Done \<lparr>last_ack_received = 2, last_frame_sent = 2, last_frame_written = 0,
           send_window_not_full = 5, buffer = [], timers_created = 2,
           timers_running = [(0, 1)],
           llp_sent = [[0x44, 0, 0, 0, 1, 0x61], [0x44, 0, 0, 0, 2, 0x62]]\<rparr>
   \<and> sender_run SWPSender_init
       [Send [0x61], Send [0x62], Recv (Some [0x41, 0, 0, 0, 2]), Timeout 0]
   = Raises TypeError
       \<lparr>last_ack_received = 2, last_frame_sent = 2, last_frame_written = 0,
        send_window_not_full = 5, buffer = [], timers_created = 2,
        timers_running = [],
        llp_sent = [[0x44, 0, 0, 0, 1, 0x61], [0x44, 0, 0, 0, 2, 0x62]]\<rparr>"
  by (simp add: sender_eval)

text \<open>
  C6 as stated fails: a datagram that does not decode is not dropped. With segment 1
  in flight, the loop reads an empty datagram and then the ACK for 1; \<^verbatim>\<open>from_bytes\<close>
  raises on the first, nothing catches it, the loop ends there and the ACK is never
  processed (had the first datagram been dropped, the ACK would have retired
  segment 1).
\<close>

theorem sender_recv_malformed_counterexample:
  "sender_run SWPSender_init [Send [0x61]]
   = Done \<lparr>last_ack_received = 0, last_frame_sent = 1, last_frame_written = 0,
           send_window_not_full = 4, buffer = [(1, [0x61], 0)], timers_created = 1,
           timers_running = [(0, 1)], llp_sent = [[0x44, 0, 0, 0, 1, 0x61]]\<rparr>
   \<and> sender_recv
       \<lparr>last_ack_received = 0, last_frame_sent = 1, last_frame_written = 0,
        send_window_not_full = 4, buffer = [(1, [0x61], 0)], timers_created = 1,
        timers_running = [(0, 1)], llp_sent = [[0x44, 0, 0, 0, 1, 0x61]]\<rparr>
       [Some [], Some [0x41, 0, 0, 0, 1]]
   = Raises StructError
       \<lparr>last_ack_received = 0, last_frame_sent = 1, last_frame_written = 0,
        send_window_not_full = 4, buffer = [(1, [0x61], 0)], timers_created = 1,
        timers_running = [(0, 1)], llp_sent = [[0x44, 0, 0, 0, 1, 0x61]]\<rparr>
   \<and> sender_recv
       \<lparr>last_ack_received = 0, last_frame_sent = 1, last_frame_written = 0,
        send_window_not_full = 4, buffer = [(1, [0x61], 0)], timers_created = 1,
        timers_running = [(0, 1)], llp_sent = [[0x44, 0, 0, 0, 1, 0x61]]\<rparr>
       [Some [0x41, 0, 0, 0, 1]]
   = Done \<lparr>last_ack_received = 1, last_frame_sent = 1, last_frame_written = 0,
           send_window_not_full = 5, buffer = [], timers_created = 1,
           timers_running = [], llp_sent = [[0x44, 0, 0, 0, 1, 0x61]]\<rparr>"
  by (simp add: sender_eval)

text \<open>
  C6, amended. A datagram that decodes to a packet whose type is not ACK is ignored,
  and so is the \<^verbatim>\<open>None\<close> that the link returns when it has no data: the sender is as it
  was and the loop goes on with the next datagram. A datagram that does not decode
  leaves the sender as it was too, but the exception of \<^verbatim>\<open>from_bytes\<close> leaves the loop,
  which reads no further datagram.
\<close>

theorem sender_recv_ignores:
  "sender_recv s (None # raws) = sender_recv s raws
   \<and> (from_bytes raw = Inr packet \<and> pkt_type packet \<noteq> ACK \<longrightarrow>
        sender_recv_iter s (Some raw) = Done s
        \<and> sender_recv s (Some raw # raws) = sender_recv s raws)
   \<and> (from_bytes raw = Inl e \<longrightarrow>
        sender_recv_iter s (Some raw) = Raises e s
        \<and> sender_recv s (Some raw # raws) = Raises e s)"
  by (simp add: sender_recv_iter_def)

theorem sender_recv_ignores_witness:
  "sender_recv SWPSender_init [Some [0x44, 0, 0, 0, 1, 0x61], Some [0x41, 0, 0]]
   = Raises StructError SWPSender_init"
  using sender_recv_ignores
          [of SWPSender_init "[Some [0x41, 0, 0]]" "[0x44, 0, 0, 0, 1, 0x61]"
              "\<lparr>pkt_type = DATA, pkt_seq_num = 1, pkt_data = [0x61]\<rparr>"]
        sender_recv_ignores [of SWPSender_init "[]" "[0x41, 0, 0]" _ StructError]
  by (simp add: from_bytes_header from_bytes_short SWPType_of_def)

subsection \<open>Dictionaries\<close>

lemma dict_keys_dict_set_new:
  "k \<notin> set (dict_keys d) \<Longrightarrow> dict_keys (dict_set d k v) = dict_keys d @ [k]"
  by (induction d) (auto simp: dict_keys_def)

lemma dict_keys_filter:
  "dict_keys (filter (\<lambda>(k, v). P k) d) = filter P (dict_keys d)"
  by (induction d) (auto simp: dict_keys_def)

lemma dict_get_contains:
  "dict_contains d k \<Longrightarrow> \<exists>v. dict_get d k = Some v"
  by (induction d) (auto simp: dict_contains_def dict_keys_def dict_get_def)

lemma length_dict_keys: "length (dict_keys d) = length d"
  by (simp add: dict_keys_def)

lemma filter_greater_upto:
  fixes a b k :: int
  assumes "a \<le> k" and "k \<le> b"
  shows "filter (\<lambda>k'. k < k') [a..b] = [k + 1..b]"
proof -
  have "[a..b] = [a..k] @ [k + 1..b]"
    using assms by (rule upto_split2)
  moreover have "filter (\<lambda>k'. k < k') [a..k] = []"
    by (auto simp: filter_empty_conv)
  moreover have "filter (\<lambda>k'. k < k') [k + 1..b] = [k + 1..b]"
    by (auto simp: filter_id_conv)
  ultimately show ?thesis
    by simp
qed

subsection \<open>The invariant of the sender\<close>

lemma release_each_ok:
  "send_window_not_full s + length is \<le> SEND_WINDOW_SIZE \<Longrightarrow>
   release_each is s = Done (s\<lparr>send_window_not_full := send_window_not_full s + length is\<rparr>)"
  by (induction "is" arbitrary: s) (simp_all add: sem_release_def)

lemma sender_inv_init: "sender_inv SWPSender_init"
  by (simp add: sender_inv_def SWPSender_init_def dict_keys_def)

lemma sender_send1_Done:
  assumes "sender_inv s" and "sender_send1 s data = Done s'"
  shows "last_frame_sent s' = last_frame_sent s + 1"
    and "last_ack_received s' = last_ack_received s"
    and "dict_keys (buffer s') = dict_keys (buffer s) @ [last_frame_sent s + 1]"
    and "send_window_not_full s' + 1 = send_window_not_full s"
    and "\<exists>bytes. to_bytes \<lparr>pkt_type = DATA, pkt_seq_num = last_frame_sent s + 1, pkt_data = data\<rparr>
                    = Inr bytes \<and> llp_sent s' = llp_sent s @ [bytes]"
proof -
  have new: "last_frame_sent s + 1 \<notin> set (dict_keys (buffer s))"
    using assms(1) by (simp add: sender_inv_def)
  from assms(2) show "last_frame_sent s' = last_frame_sent s + 1"
    and "last_ack_received s' = last_ack_received s"
    and "send_window_not_full s' + 1 = send_window_not_full s"
    and "\<exists>bytes. to_bytes \<lparr>pkt_type = DATA, pkt_seq_num = last_frame_sent s + 1, pkt_data = data\<rparr>
                    = Inr bytes \<and> llp_sent s' = llp_sent s @ [bytes]"
    by (auto simp: sender_send1_def Let_def split: if_splits sum.splits)
  from assms(2) have "buffer s' = dict_set (buffer s) (last_frame_sent s + 1) (data, timers_created s)"
    by (auto simp: sender_send1_def Let_def split: if_splits sum.splits)
  then show "dict_keys (buffer s') = dict_keys (buffer s) @ [last_frame_sent s + 1]"
    using new by (simp add: dict_keys_dict_set_new)
qed

lemma sender_inv_send1:
  assumes "sender_inv s" and "sender_send1 s data = Done s'"
  shows "sender_inv s'"
proof -
  note d = sender_send1_Done [OF assms]
  have "[last_ack_received s + 1..last_frame_sent s] @ [last_frame_sent s + 1]
          = [last_ack_received s + 1..last_frame_sent s + 1]"
    using assms(1) upto_rec2 [of "last_ack_received s + 1" "last_frame_sent s + 1"]
    by (simp add: sender_inv_def)
  then show ?thesis
    using assms(1) d(4) by (simp add: sender_inv_def d(1,2,3))
qed

text \<open>What an accepted ACK does, from a state that satisfies the invariant.\<close>

lemma sender_recv_iter_ack:
  assumes inv: "sender_inv s"
    and raw: "from_bytes raw = Inr packet" "pkt_type packet = ACK" "pkt_seq_num packet = k"
    and mem: "dict_contains (buffer s) k"
  shows "\<exists>timer data.
           dict_get (buffer s) k = Some (data, timer)
           \<and> sender_recv_iter s (Some raw) =
               Done (s\<lparr>timers_running := filter (\<lambda>(t, _). t \<noteq> timer) (timers_running s),
                        last_ack_received := k,
                        buffer := filter (\<lambda>(k', v). k < k') (buffer s),
                        send_window_not_full :=
                          send_window_not_full s + nat (k - last_ack_received s)\<rparr>)"
    and "last_ack_received s < k" and "k \<le> last_frame_sent s"
proof -
  from inv mem show k: "last_ack_received s < k" "k \<le> last_frame_sent s"
    by (simp_all add: sender_inv_def dict_contains_def)
  from dict_get_contains [OF mem] obtain data timer
    where get: "dict_get (buffer s) k = Some (data, timer)"
    by (cases "the (dict_get (buffer s) k)") auto
  have len: "length [last_ack_received s..k - 1] = nat (k - last_ack_received s)"
    by simp
  have "int (send_window_not_full s) + (k - last_ack_received s) \<le> int SEND_WINDOW_SIZE"
    using inv k by (simp add: sender_inv_def)
  then have room: "send_window_not_full s + nat (k - last_ack_received s) \<le> SEND_WINDOW_SIZE"
    using k by linarith
  show "\<exists>timer data.
           dict_get (buffer s) k = Some (data, timer)
           \<and> sender_recv_iter s (Some raw) =
               Done (s\<lparr>timers_running := filter (\<lambda>(t, _). t \<noteq> timer) (timers_running s),
                        last_ack_received := k,
                        buffer := filter (\<lambda>(k', v). k < k') (buffer s),
                        send_window_not_full :=
                          send_window_not_full s + nat (k - last_ack_received s)\<rparr>)"
    using raw mem get room
    by (simp add: sender_recv_iter_def Let_def release_each_ok len del: length_upto)
qed

lemma sender_inv_recv_iter:
  assumes "sender_inv s" and "sender_recv_iter s raw = Done s'"
  shows "sender_inv s'"
proof (cases raw)
  case None
  with assms show ?thesis by (simp add: sender_recv_iter_def)
next
  case (Some bs)
  show ?thesis
  proof (cases "from_bytes bs")
    case (Inl e)
    with assms Some show ?thesis by (simp add: sender_recv_iter_def)
  next
    case (Inr packet)
    show ?thesis
    proof (cases "pkt_type packet = ACK \<and> dict_contains (buffer s) (pkt_seq_num packet)")
      case False
      with assms Some Inr show ?thesis
        by (auto simp: sender_recv_iter_def Let_def split: if_splits)
    next
      case True
      let ?k = "pkt_seq_num packet"
      from True have "pkt_type packet = ACK" "dict_contains (buffer s) ?k"
        by simp_all
      note ack = sender_recv_iter_ack [OF assms(1) Inr this(1) refl this(2)]
      from ack(1) assms(2) Some obtain timer where s':
        "s' = s\<lparr>timers_running := filter (\<lambda>(t, _). t \<noteq> timer) (timers_running s),
                last_ack_received := ?k,
                buffer := filter (\<lambda>(k', v). ?k < k') (buffer s),
                send_window_not_full :=
                  send_window_not_full s + nat (?k - last_ack_received s)\<rparr>"
        by auto
      have "filter (\<lambda>k'. ?k < k') [last_ack_received s + 1..last_frame_sent s]
              = [?k + 1..last_frame_sent s]"
        using ack(2,3) by (intro filter_greater_upto) simp_all
      then show ?thesis
        using assms(1) ack(2,3) by (simp add: s' sender_inv_def dict_keys_filter)
    qed
  qed
qed

lemma sender_inv_retransmit:
  assumes "sender_inv s" and "sender_retransmit s k = Done s'"
  shows "sender_inv s'"
  using assms
  by (auto simp: sender_retransmit_def sender_inv_def Let_def split: option.splits sum.splits)

lemma sender_inv_step:
  assumes "sender_inv s" and "sender_step s ev = Done s'"
  shows "sender_inv s'"
proof (cases ev)
  case (Send data)
  with assms show ?thesis by (simp add: sender_step_def sender_inv_send1)
next
  case (Recv raw)
  with assms show ?thesis by (simp add: sender_step_def sender_inv_recv_iter)
next
  case (Timeout t)
  show ?thesis
  proof (cases "map_of (timers_running s) t")
    case None
    with assms Timeout show ?thesis by (simp add: sender_step_def)
  next
    case (Some k)
    have "sender_inv (s\<lparr>timers_running := filter (\<lambda>(t', _). t' \<noteq> t) (timers_running s)\<rparr>)"
      using assms(1) by (simp add: sender_inv_def)
    with assms(2) Timeout Some show ?thesis
      by (auto simp: sender_step_def intro: sender_inv_retransmit)
  qed
qed

lemma sender_inv_run:
  "sender_inv s \<Longrightarrow> sender_run s evs = Done s' \<Longrightarrow> sender_inv s'"
proof (induction evs arbitrary: s)
  case Nil
  then show ?case by simp
next
  case (Cons ev evs)
  then show ?case
    by (cases "sender_step s ev") (auto dest: sender_inv_step)
qed

lemma sender_inv_reachable:
  "sender_run SWPSender_init evs = Done s \<Longrightarrow> sender_inv s"
  using sender_inv_init by (rule sender_inv_run)

lemma sender_inv_length:
  assumes "sender_inv s"
  shows "int (length (buffer s)) = last_frame_sent s - last_ack_received s"
proof -
  have "length (buffer s) = length [last_ack_received s + 1..last_frame_sent s]"
    using assms length_dict_keys [of "buffer s"] by (simp add: sender_inv_def)
  also have "\<dots> = nat (last_frame_sent s - last_ack_received s)"
    by simp
  finally show ?thesis
    using assms by (simp add: sender_inv_def)
qed

subsection \<open>Cumulative acknowledgment\<close>

text \<open>
  C2. In a state that the sender can reach, when the receive loop reads an ACK whose
  sequence number \<open>k\<close> is a key of the buffer, the iteration returns with
  \<^verbatim>\<open>last_ack_received\<close> set to \<open>k\<close> and every entry with a key up to \<open>k\<close> removed from the
  buffer (the others stay, in their order), and it releases one permit for every
  sequence number after the old \<^verbatim>\<open>last_ack_received\<close> up to \<open>k\<close>, which is the number
  of entries that left the buffer.
\<close>

theorem sender_ack_cumulative:
  assumes "sender_run SWPSender_init evs = Done s"
    and "from_bytes raw = Inr packet" and "pkt_type packet = ACK" and "pkt_seq_num packet = k"
    and "dict_contains (buffer s) k"
  shows "\<exists>s'. sender_recv_iter s (Some raw) = Done s'
           \<and> last_ack_received s' = k
           \<and> buffer s' = filter (\<lambda>(k', v). k < k') (buffer s)
           \<and> (\<forall>k'. dict_contains (buffer s') k' \<longleftrightarrow> dict_contains (buffer s) k' \<and> k < k')
           \<and> send_window_not_full s'
               = send_window_not_full s + card {last_ack_received s <.. k}
           \<and> card {last_ack_received s <.. k} = length (buffer s) - length (buffer s')
           \<and> length (buffer s') \<le> length (buffer s)
           \<and> last_frame_sent s' = last_frame_sent s"
proof -
  have inv: "sender_inv s"
    using assms(1) by (rule sender_inv_reachable)
  note ack = sender_recv_iter_ack [OF inv assms(2-5)]
  from ack(1) obtain s' where s': "sender_recv_iter s (Some raw) = Done s'"
    and lar: "last_ack_received s' = k"
    and buf: "buffer s' = filter (\<lambda>(k', v). k < k') (buffer s)"
    and sem: "send_window_not_full s' = send_window_not_full s + nat (k - last_ack_received s)"
    and lfs: "last_frame_sent s' = last_frame_sent s"
    by auto
  have inv': "sender_inv s'"
    using inv s' by (rule sender_inv_recv_iter)
  have len: "int (length (buffer s)) = last_frame_sent s - last_ack_received s"
    using inv by (rule sender_inv_length)
  have len': "int (length (buffer s')) = last_frame_sent s - k"
    using sender_inv_length [OF inv'] by (simp add: lar lfs)
  have card: "card {last_ack_received s <.. k} = nat (k - last_ack_received s)"
    by simp
  have retired: "nat (k - last_ack_received s) = length (buffer s) - length (buffer s')"
    using len len' ack(2,3) by linarith
  have keys: "\<forall>k'. dict_contains (buffer s') k' \<longleftrightarrow> dict_contains (buffer s) k' \<and> k < k'"
    by (auto simp: buf dict_contains_def dict_keys_def)
  have "length (buffer s') \<le> length (buffer s)"
    by (simp add: buf)
  then show ?thesis
    using s' lar buf sem lfs keys retired unfolding card by blast
qed

theorem sender_ack_cumulative_witness:
  "\<exists>s'. sender_recv_iter
          \<lparr>last_ack_received = 0, last_frame_sent = 3, last_frame_written = 0,
           send_window_not_full = 2,
           buffer = [(1, [0x61], 0), (2, [0x62], 1), (3, [0x63], 2)],
           timers_created = 3, timers_running = [(0, 1), (1, 2), (2, 3)],
           llp_sent = [[0x44, 0, 0, 0, 1, 0x61], [0x44, 0, 0, 0, 2, 0x62],
                       [0x44, 0, 0, 0, 3, 0x63]]\<rparr>
          (Some [0x41, 0, 0, 0, 2]) = Done s'
        \<and> last_ack_received s' = 2
        \<and> buffer s' = [(3, [0x63], 2)]
        \<and> send_window_not_full s' = 4"
  using sender_ack_cumulative
    [of "[Send [0x61], Send [0x62], Send [0x63]]"
        "\<lparr>last_ack_received = 0, last_frame_sent = 3, last_frame_written = 0,
         send_window_not_full = 2,
         buffer = [(1, [0x61], 0), (2, [0x62], 1), (3, [0x63], 2)],
         timers_created = 3, timers_running = [(0, 1), (1, 2), (2, 3)],
         llp_sent = [[0x44, 0, 0, 0, 1, 0x61], [0x44, 0, 0, 0, 2, 0x62],
                     [0x44, 0, 0, 0, 3, 0x63]]\<rparr>"
        "[0x41, 0, 0, 0, 2]" "\<lparr>pkt_type = ACK, pkt_seq_num = 2, pkt_data = []\<rparr>" 2]
  by (simp add: sender_eval)

subsection \<open>The window bound\<close>

lemma sender_inv_bound:
  assumes "sender_inv s"
  shows "length (buffer s) + send_window_not_full s = SEND_WINDOW_SIZE"
  using assms sender_inv_length [OF assms] by (simp add: sender_inv_def)

lemma length_dict_set_le: "length (dict_set d k v) \<le> Suc (length d)"
  by (induction d) auto

text \<open>The buffer at the point where a step raises.\<close>

lemma sender_step_Raises_bound:
  assumes inv: "sender_inv s" and step: "sender_step s ev = Raises e s'"
  shows "length (buffer s') \<le> SEND_WINDOW_SIZE"
proof (cases ev)
  case (Send data)
  with step have nz: "send_window_not_full s \<noteq> 0"
    and "buffer s' = dict_set (buffer s) (last_frame_sent s + 1) (data, timers_created s)"
    by (auto simp: sender_step_def sender_send1_def Let_def split: if_splits sum.splits)
  then have "length (buffer s') \<le> Suc (length (buffer s))"
    by (simp add: length_dict_set_le)
  with nz sender_inv_bound [OF inv] show ?thesis
    by simp
next
  case (Recv raw)
  have "buffer s' = buffer s"
  proof (cases raw)
    case None
    with step Recv show ?thesis by (simp add: sender_step_def sender_recv_iter_def)
  next
    case (Some bs)
    show ?thesis
    proof (cases "from_bytes bs")
      case (Inl e')
      with step Recv Some show ?thesis by (simp add: sender_step_def sender_recv_iter_def)
    next
      case (Inr packet)
      show ?thesis
      proof (cases "pkt_type packet = ACK \<and> dict_contains (buffer s) (pkt_seq_num packet)")
        case False
        with step Recv Some Inr show ?thesis
          by (auto simp: sender_step_def sender_recv_iter_def Let_def split: if_splits)
      next
        case True
        then have "pkt_type packet = ACK" "dict_contains (buffer s) (pkt_seq_num packet)"
          by simp_all
        from sender_recv_iter_ack(1) [OF inv Inr this(1) refl this(2)] step Recv Some
        show ?thesis by (auto simp: sender_step_def)
      qed
    qed
  qed
  with sender_inv_bound [OF inv] show ?thesis
    by simp
next
  case (Timeout t)
  with step have "buffer s' = buffer s"
    by (auto simp: sender_step_def sender_retransmit_def Let_def
             split: option.splits sum.splits)
  with sender_inv_bound [OF inv] show ?thesis
    by simp
qed

lemma sender_run_Raises_bound:
  "sender_inv s \<Longrightarrow> sender_run s evs = Raises e s' \<Longrightarrow> length (buffer s') \<le> SEND_WINDOW_SIZE"
proof (induction evs arbitrary: s)
  case Nil
  then show ?case by simp
next
  case (Cons ev evs)
  show ?case
  proof (cases "sender_step s ev")
    case (Done s1)
    with Cons.prems have "sender_inv s1" "sender_run s1 evs = Raises e s'"
      by (auto dest: sender_inv_step)
    then show ?thesis by (rule Cons.IH)
  next
    case Blocks
    with Cons.prems show ?thesis by simp
  next
    case (Raises e1 s1)
    with Cons.prems have "sender_step s ev = Raises e s'" by simp
    with Cons.prems(1) show ?thesis by (rule sender_step_Raises_bound)
  qed
qed

text \<open>
  C3. Whatever \<^verbatim>\<open>_send\<close> calls, receive-loop iterations and timer firings a sender has
  gone through, and also at the point where one of them raised, its retransmission
  buffer has at most \<open>SEND_WINDOW_SIZE = 5\<close> entries. Between operations the number of
  entries is the number of segments sent and not yet acknowledged,
  \<^verbatim>\<open>last_frame_sent - last_ack_received\<close>, and \<^verbatim>\<open>_send\<close> waits, changing nothing, exactly
  when the buffer has 5 entries.
\<close>

theorem sender_window_bound:
  "(sender_run SWPSender_init evs = Done s \<or> sender_run SWPSender_init evs = Raises e s \<longrightarrow>
      length (buffer s) \<le> SEND_WINDOW_SIZE \<and> SEND_WINDOW_SIZE = 5)
   \<and> (sender_run SWPSender_init evs = Done s \<longrightarrow>
        int (length (buffer s)) = last_frame_sent s - last_ack_received s
        \<and> last_frame_sent s - last_ack_received s \<le> 5
        \<and> (sender_send1 s data = Blocks \<longleftrightarrow> length (buffer s) = SEND_WINDOW_SIZE))"
proof -
  have "length (buffer s) \<le> SEND_WINDOW_SIZE" if "sender_run SWPSender_init evs = Raises e s"
    using sender_inv_init that by (rule sender_run_Raises_bound)
  moreover have "length (buffer s) \<le> SEND_WINDOW_SIZE
      \<and> int (length (buffer s)) = last_frame_sent s - last_ack_received s
      \<and> last_frame_sent s - last_ack_received s \<le> 5
      \<and> (sender_send1 s data = Blocks \<longleftrightarrow> length (buffer s) = SEND_WINDOW_SIZE)"
    if "sender_run SWPSender_init evs = Done s"
  proof -
    have inv: "sender_inv s"
      using that by (rule sender_inv_reachable)
    have blocks: "sender_send1 s data = Blocks \<longleftrightarrow> send_window_not_full s = 0"
      by (auto simp: sender_send1_def Let_def split: sum.splits)
    show ?thesis
      using sender_inv_bound [OF inv] sender_inv_length [OF inv]
      by (auto simp: blocks SEND_WINDOW_SIZE_def)
  qed
  ultimately show ?thesis
    by (auto simp: SEND_WINDOW_SIZE_def)
qed

theorem sender_window_bound_witness:
  "sender_run SWPSender_init
     [Send [0x61], Send [0x62], Send [0x63], Send [0x64], Send [0x65]]
   = Done \<lparr>last_ack_received = 0, last_frame_sent = 5, last_frame_written = 0,
           send_window_not_full = 0,
           buffer = [(1, [0x61], 0), (2, [0x62], 1), (3, [0x63], 2), (4, [0x64], 3),
                     (5, [0x65], 4)],
           timers_created = 5,
           timers_running = [(0, 1), (1, 2), (2, 3), (3, 4), (4, 5)],
           llp_sent = [[0x44, 0, 0, 0, 1, 0x61], [0x44, 0, 0, 0, 2, 0x62],
                       [0x44, 0, 0, 0, 3, 0x63], [0x44, 0, 0, 0, 4, 0x64],
                       [0x44, 0, 0, 0, 5, 0x65]]\<rparr>
   \<and> sender_send1
       \<lparr>last_ack_received = 0, last_frame_sent = 5, last_frame_written = 0,
        send_window_not_full = 0,
        buffer = [(1, [0x61], 0), (2, [0x62], 1), (3, [0x63], 2), (4, [0x64], 3),
                  (5, [0x65], 4)],
        timers_created = 5,
        timers_running = [(0, 1), (1, 2), (2, 3), (3, 4), (4, 5)],
        llp_sent = [[0x44, 0, 0, 0, 1, 0x61], [0x44, 0, 0, 0, 2, 0x62],
                    [0x44, 0, 0, 0, 3, 0x63], [0x44, 0, 0, 0, 4, 0x64],
                    [0x44, 0, 0, 0, 5, 0x65]]\<rparr> [0x66]
     = Blocks"
  using sender_window_bound
    [of "[Send [0x61], Send [0x62], Send [0x63], Send [0x64], Send [0x65]]"
        "\<lparr>last_ack_received = 0, last_frame_sent = 5, last_frame_written = 0,
         send_window_not_full = 0,
         buffer = [(1, [0x61], 0), (2, [0x62], 1), (3, [0x63], 2), (4, [0x64], 3),
                   (5, [0x65], 4)],
         timers_created = 5,
         timers_running = [(0, 1), (1, 2), (2, 3), (3, 4), (4, 5)],
         llp_sent = [[0x44, 0, 0, 0, 1, 0x61], [0x44, 0, 0, 0, 2, 0x62],
                     [0x44, 0, 0, 0, 3, 0x63], [0x44, 0, 0, 0, 4, 0x64],
                     [0x44, 0, 0, 0, 5, 0x65]]\<rparr>" _ "[0x66]"]
  by (simp add: sender_eval)

subsection \<open>The keys of the retransmission buffer\<close>

text \<open>
  C10. Whatever \<^verbatim>\<open>_send\<close> calls, receive-loop iterations and timer firings a sender has
  gone through, every key \<open>k\<close> of its retransmission buffer satisfies
  \<^verbatim>\<open>last_ack_received < k <= last_frame_sent\<close>. From such a state, \<^verbatim>\<open>_send\<close> advances
  \<^verbatim>\<open>last_frame_sent\<close> by one and adds exactly that key to the buffer, and an accepted
  ACK sets \<^verbatim>\<open>last_ack_received\<close> to its sequence number and keeps exactly the keys
  greater than it.
\<close>

theorem sender_buffer_keys_in_window:
  assumes "sender_run SWPSender_init evs = Done s"
  shows "(\<forall>k. dict_contains (buffer s) k \<longrightarrow>
            last_ack_received s < k \<and> k \<le> last_frame_sent s)
       \<and> (\<forall>data s'. sender_send1 s data = Done s' \<longrightarrow>
            last_frame_sent s' = last_frame_sent s + 1
            \<and> last_ack_received s' = last_ack_received s
            \<and> dict_keys (buffer s') = dict_keys (buffer s) @ [last_frame_sent s'])
       \<and> (\<forall>raw packet s'.
            from_bytes raw = Inr packet \<and> pkt_type packet = ACK
            \<and> dict_contains (buffer s) (pkt_seq_num packet)
            \<and> sender_recv_iter s (Some raw) = Done s' \<longrightarrow>
            last_ack_received s' = pkt_seq_num packet
            \<and> last_frame_sent s' = last_frame_sent s
            \<and> (\<forall>k. dict_contains (buffer s') k \<longleftrightarrow>
                     dict_contains (buffer s) k \<and> pkt_seq_num packet < k))"
proof -
  have inv: "sender_inv s"
    using assms by (rule sender_inv_reachable)
  have 1: "\<forall>k. dict_contains (buffer s) k \<longrightarrow>
            last_ack_received s < k \<and> k \<le> last_frame_sent s"
    using inv by (simp add: sender_inv_def dict_contains_def)
  have 2: "\<forall>data s'. sender_send1 s data = Done s' \<longrightarrow>
            last_frame_sent s' = last_frame_sent s + 1
            \<and> last_ack_received s' = last_ack_received s
            \<and> dict_keys (buffer s') = dict_keys (buffer s) @ [last_frame_sent s']"
    using sender_send1_Done(1,2,3) [OF inv] by simp
  have 3: "last_ack_received s' = pkt_seq_num packet
            \<and> last_frame_sent s' = last_frame_sent s
            \<and> (\<forall>k. dict_contains (buffer s') k \<longleftrightarrow>
                     dict_contains (buffer s) k \<and> pkt_seq_num packet < k)"
    if "from_bytes raw = Inr packet" "pkt_type packet = ACK"
      "dict_contains (buffer s) (pkt_seq_num packet)"
      "sender_recv_iter s (Some raw) = Done s'" for raw packet s'
    using sender_recv_iter_ack(1) [OF inv that(1,2) refl that(3)] that(4)
    by (auto simp: dict_contains_def dict_keys_def)
  from 1 2 3 show ?thesis
    by blast
qed

theorem sender_buffer_keys_in_window_witness:
  "dict_contains
     (buffer \<lparr>last_ack_received = 1, last_frame_sent = 3, last_frame_written = 0,
              send_window_not_full = 3, buffer = [(2, [0x62], 1), (3, [0x63], 2)],
              timers_created = 3, timers_running = [(1, 2), (2, 3)],
              llp_sent = [[0x44, 0, 0, 0, 1, 0x61], [0x44, 0, 0, 0, 2, 0x62],
                          [0x44, 0, 0, 0, 3, 0x63]]\<rparr>) 2
   \<and> last_ack_received
         \<lparr>last_ack_received = 1, last_frame_sent = 3, last_frame_written = 0,
          send_window_not_full = 3, buffer = [(2, [0x62], 1), (3, [0x63], 2)],
          timers_created = 3, timers_running = [(1, 2), (2, 3)],
          llp_sent = [[0x44, 0, 0, 0, 1, 0x61], [0x44, 0, 0, 0, 2, 0x62],
                      [0x44, 0, 0, 0, 3, 0x63]]\<rparr> < 2
   \<and> 2 \<le> last_frame_sent
         \<lparr>last_ack_received = 1, last_frame_sent = 3, last_frame_written = 0,
          send_window_not_full = 3, buffer = [(2, [0x62], 1), (3, [0x63], 2)],
          timers_created = 3, timers_running = [(1, 2), (2, 3)],
          llp_sent = [[0x44, 0, 0, 0, 1, 0x61], [0x44, 0, 0, 0, 2, 0x62],
                      [0x44, 0, 0, 0, 3, 0x63]]\<rparr>
   \<and> sender_run SWPSender_init
       [Send [0x61], Send [0x62], Send [0x63], Recv (Some [0x41, 0, 0, 0, 1])]
     = Done \<lparr>last_ack_received = 1, last_frame_sent = 3, last_frame_written = 0,
             send_window_not_full = 3, buffer = [(2, [0x62], 1), (3, [0x63], 2)],
             timers_created = 3, timers_running = [(1, 2), (2, 3)],
             llp_sent = [[0x44, 0, 0, 0, 1, 0x61], [0x44, 0, 0, 0, 2, 0x62],
                         [0x44, 0, 0, 0, 3, 0x63]]\<rparr>"
  using sender_buffer_keys_in_window
    [of "[Send [0x61], Send [0x62], Send [0x63], Recv (Some [0x41, 0, 0, 0, 1])]"
        "\<lparr>last_ack_received = 1, last_frame_sent = 3, last_frame_written = 0,
         send_window_not_full = 3, buffer = [(2, [0x62], 1), (3, [0x63], 2)],
         timers_created = 3, timers_running = [(1, 2), (2, 3)],
         llp_sent = [[0x44, 0, 0, 0, 1, 0x61], [0x44, 0, 0, 0, 2, 0x62],
                     [0x44, 0, 0, 0, 3, 0x63]]\<rparr>"]
  by (simp add: sender_eval)

subsection \<open>Segmentation\<close>

lemma sender_send1_Blocks: "send_window_not_full s = 0 \<Longrightarrow> sender_send1 s data = Blocks"
  by (simp add: sender_send1_def)

lemma to_bytes_DATA:
  assumes "0 \<le> n" and "n < 2 ^ 32"
  shows "to_bytes \<lparr>pkt_type = DATA, pkt_seq_num = n, pkt_data = data\<rparr>
           = Inr ([0x44, word_of_int (n div 2 ^ 24), word_of_int (n div 2 ^ 16),
                   word_of_int (n div 2 ^ 8), word_of_int n] @ data)"
  using pack_BI_ok [OF assms, of DATA] by (simp add: to_bytes_def)

lemma sender_send1_ok:
  assumes "send_window_not_full s \<noteq> 0"
    and "0 \<le> last_frame_sent s" and "last_frame_sent s + 1 < 2 ^ 32"
  shows "\<exists>s' bytes. sender_send1 s data = Done s'
           \<and> to_bytes \<lparr>pkt_type = DATA, pkt_seq_num = last_frame_sent s + 1, pkt_data = data\<rparr>
               = Inr bytes
           \<and> llp_sent s' = llp_sent s @ [bytes]
           \<and> last_frame_sent s' = last_frame_sent s + 1
           \<and> Suc (send_window_not_full s') = send_window_not_full s"
proof -
  have "0 \<le> last_frame_sent s + 1"
    using assms(2) by simp
  from to_bytes_DATA [OF this assms(3), of data] assms(1) show ?thesis
    by (simp add: sender_send1_def Let_def)
qed

lemma chunks_left:
  assumes "i < length data"
  shows "(length data - i + 1399) div 1400 = Suc ((length data - (i + 1400) + 1399) div 1400)"
proof (cases "i + 1400 \<le> length data")
  case True
  then have "length data - i + 1399 = (length data - (i + 1400) + 1399) + 1400"
    by simp
  then show ?thesis
    by (simp only: div_add_self2)
next
  case False
  with assms have "1400 \<le> length data - i + 1399" "length data - i + 1399 < 2800"
      and z: "length data - (i + 1400) = 0"
    by simp_all
  then have "(length data - i + 1399) div 1400 = 1"
    by (intro div_nat_eqI) simp_all
  then show ?thesis
    by (simp add: z)
qed

lemma chunks_none:
  assumes "\<not> i < length (data :: 'a list)"
  shows "(length data - i + 1399) div 1400 = 0"
  using assms by simp

lemma concat_chunks:
  "concat (map (\<lambda>j. take n (drop (i + n * j) data)) [0..<m]) = take (n * m) (drop i data)"
proof (induction m)
  case 0
  show ?case by simp
next
  case (Suc m)
  have "take (n * m + n) (drop i data)
          = take (n * m) (drop i data) @ take n (drop (n * m) (drop i data))"
    by (rule take_add)
  then show ?case
    using Suc by (simp add: add.commute)
qed

text \<open>
  The loop of \<^verbatim>\<open>send\<close> from the offset \<open>i\<close>: it returns after the last chunk, or is
  suspended at the first chunk for which there is no permit. In both cases \<open>m\<close> chunks
  went to \<^verbatim>\<open>_send\<close>, the \<open>j\<close>-th of them \<^verbatim>\<open>data[i + 1400 j : i + 1400 j + 1400]\<close> with the
  sequence number \<^verbatim>\<open>last_frame_sent + 1 + j\<close>.
\<close>

lemma sender_send_from_spec:
  assumes "0 \<le> last_frame_sent s"
    and "last_frame_sent s + int ((length data - i + 1399) div 1400) < 2 ^ 32"
  shows "\<exists>s' m new.
           (sender_send_from s data i = Sent s' \<and> m = (length data - i + 1399) div 1400
            \<or> sender_send_from s data i = Suspended s' (i + 1400 * m)
               \<and> i + 1400 * m < length data \<and> send_window_not_full s' = 0)
           \<and> send_window_not_full s' + m = send_window_not_full s
           \<and> last_frame_sent s' = last_frame_sent s + int m
           \<and> llp_sent s' = llp_sent s @ new
           \<and> map Inr new =
               map (\<lambda>j. to_bytes \<lparr>pkt_type = DATA,
                                   pkt_seq_num = last_frame_sent s + 1 + int j,
                                   pkt_data = take 1400 (drop (i + 1400 * j) data)\<rparr>) [0..<m]"
  using assms
proof (induction s data i rule: sender_send_from.induct)
  case (1 s data i)
  show ?case
  proof (cases "i < length data")
    case False
    then have "sender_send_from s data i = Sent s"
      by (simp add: sender_send_from.simps [of s data i])
    with chunks_none [OF False] show ?thesis
      by (intro exI [of _ s] exI [of _ 0] exI [of _ "[]"]) simp
  next
    case True
    show ?thesis
    proof (cases "send_window_not_full s = 0")
      case True
      then have "sender_send_from s data i = Suspended s i"
        using \<open>i < length data\<close>
        by (simp add: sender_send_from.simps [of s data i] sender_send1_Blocks)
      with True \<open>i < length data\<close> show ?thesis
        by (intro exI [of _ s] exI [of _ 0] exI [of _ "[]"]) simp
    next
      case False
      let ?c = "take MAX_DATA_SIZE (drop i data)"
      have left: "(length data - i + 1399) div 1400
                    = Suc ((length data - (i + 1400) + 1399) div 1400)"
        using True by (rule chunks_left)
      have "last_frame_sent s + 1 < 2 ^ 32"
        using "1.prems" left by simp
      from sender_send1_ok [OF False "1.prems"(1) this, of ?c]
      obtain s1 bytes where s1: "sender_send1 s ?c = Done s1"
        and bytes: "to_bytes \<lparr>pkt_type = DATA, pkt_seq_num = last_frame_sent s + 1,
                              pkt_data = ?c\<rparr> = Inr bytes"
        and sent1: "llp_sent s1 = llp_sent s @ [bytes]"
        and lfs1: "last_frame_sent s1 = last_frame_sent s + 1"
        and sem1: "Suc (send_window_not_full s1) = send_window_not_full s"
        by blast
      have p1: "0 \<le> last_frame_sent s1"
        using "1.prems"(1) lfs1 by simp
      have p2: "last_frame_sent s1
                  + int ((length data - (i + MAX_DATA_SIZE) + 1399) div 1400) < 2 ^ 32"
        using "1.prems"(2) left lfs1 by (simp add: MAX_DATA_SIZE_def)
      from "1.IH" [OF True s1 p1 p2]
      obtain s' m new where
        res: "sender_send_from s1 data (i + MAX_DATA_SIZE) = Sent s'
                \<and> m = (length data - (i + MAX_DATA_SIZE) + 1399) div 1400
              \<or> sender_send_from s1 data (i + MAX_DATA_SIZE)
                  = Suspended s' (i + MAX_DATA_SIZE + 1400 * m)
                \<and> i + MAX_DATA_SIZE + 1400 * m < length data \<and> send_window_not_full s' = 0"
        and sem: "send_window_not_full s' + m = send_window_not_full s1"
        and lfs: "last_frame_sent s' = last_frame_sent s1 + int m"
        and sent: "llp_sent s' = llp_sent s1 @ new"
        and new: "map Inr new =
               map (\<lambda>j. to_bytes \<lparr>pkt_type = DATA,
                                   pkt_seq_num = last_frame_sent s1 + 1 + int j,
                                   pkt_data = take 1400 (drop (i + MAX_DATA_SIZE + 1400 * j) data)\<rparr>)
                   [0..<m]"
        by blast
      have step: "sender_send_from s data i = sender_send_from s1 data (i + MAX_DATA_SIZE)"
        using True s1 by (simp add: sender_send_from.simps [of s data i])
      have res': "sender_send_from s data i = Sent s'
                \<and> Suc m = (length data - i + 1399) div 1400
              \<or> sender_send_from s data i = Suspended s' (i + 1400 * Suc m)
                \<and> i + 1400 * Suc m < length data \<and> send_window_not_full s' = 0"
        using res unfolding step left by (auto simp: MAX_DATA_SIZE_def)
      have new': "map Inr (bytes # new) =
               map (\<lambda>j. to_bytes \<lparr>pkt_type = DATA,
                                   pkt_seq_num = last_frame_sent s + 1 + int j,
                                   pkt_data = take 1400 (drop (i + 1400 * j) data)\<rparr>)
                   [0..<Suc m]"
        unfolding map_upt_Suc using bytes new
        by (simp add: lfs1 MAX_DATA_SIZE_def algebra_simps)
      show ?thesis
        using res' sem sem1 lfs lfs1 sent sent1 new'
        by (intro exI [of _ s'] exI [of _ "Suc m"] exI [of _ "bytes # new"]) simp
    qed
  qed
qed

lemma chunks_cover:
  "length data - i \<le> 1400 * ((length data - i + 1399) div 1400)"
proof -
  let ?d = "length data - i + 1399"
  have "?d = 1400 * (?d div 1400) + ?d mod 1400"
    by simp
  moreover have "?d mod 1400 < 1400"
    by simp
  ultimately show ?thesis
    by linarith
qed

lemma chunks_nonempty:
  assumes "j < (length data - i + 1399) div 1400"
  shows "i + 1400 * j < length data"
proof -
  from assms have "Suc j \<le> (length data - i + 1399) div 1400"
    by simp
  then have "Suc j * 1400 \<le> length data - i + 1399"
    by (simp add: less_eq_div_iff_mult_less_eq)
  then show ?thesis
    by simp
qed

text \<open>The scenario of the 3000-byte payload, on a fresh sender.\<close>

lemma sender_send_3000:
  assumes "length data = 3000"
  shows "\<exists>s'. sender_send SWPSender_init data = Sent s'
           \<and> llp_sent s' = [[0x44, 0, 0, 0, 1] @ take 1400 data,
                             [0x44, 0, 0, 0, 2] @ take 1400 (drop 1400 data),
                             [0x44, 0, 0, 0, 3] @ drop 2800 data]
           \<and> last_frame_sent s' = 3"
proof -
  have n: "(length data - 0 + 1399) div 1400 = 3"
    using assms by simp
  have "0 \<le> last_frame_sent SWPSender_init"
    and "last_frame_sent SWPSender_init + int ((length data - 0 + 1399) div 1400) < 2 ^ 32"
    unfolding n by (simp_all add: SWPSender_init_def)
  from sender_send_from_spec [OF this] obtain s' m new where
    res: "sender_send_from SWPSender_init data 0 = Sent s' \<and> m = 3
          \<or> sender_send_from SWPSender_init data 0 = Suspended s' (0 + 1400 * m)
            \<and> 0 + 1400 * m < length data \<and> send_window_not_full s' = 0"
    and sem: "send_window_not_full s' + m = send_window_not_full SWPSender_init"
    and lfs: "last_frame_sent s' = last_frame_sent SWPSender_init + int m"
    and sent: "llp_sent s' = llp_sent SWPSender_init @ new"
    and new: "map Inr new =
               map (\<lambda>j. to_bytes \<lparr>pkt_type = DATA,
                                   pkt_seq_num = last_frame_sent SWPSender_init + 1 + int j,
                                   pkt_data = take 1400 (drop (0 + 1400 * j) data)\<rparr>) [0..<m]"
    unfolding n by blast
  have m: "m = 3" and sent_all: "sender_send_from SWPSender_init data 0 = Sent s'"
    using res sem assms by (auto simp: SWPSender_init_def SEND_WINDOW_SIZE_def)
  have upt: "[0..<3] = [0, 1, 2]"
    by (simp add: upt_rec)
  have "map Inr new = [Inr ([0x44, 0, 0, 0, 1] @ take 1400 data),
                       Inr ([0x44, 0, 0, 0, 2] @ take 1400 (drop 1400 data)),
                       Inr ([0x44, 0, 0, 0, 3] @ drop 2800 data) :: error + bytes]"
    unfolding new m upt using assms
    by (simp add: SWPSender_init_def to_bytes_DATA)
  then have "new = [[0x44, 0, 0, 0, 1] @ take 1400 data,
                    [0x44, 0, 0, 0, 2] @ take 1400 (drop 1400 data),
                    [0x44, 0, 0, 0, 3] @ drop 2800 data]"
    by (auto simp: map_eq_Cons_conv)
  then show ?thesis
    using sent_all sent lfs m by (simp add: sender_send_def SWPSender_init_def)
qed

text \<open>
  C7. \<^verbatim>\<open>send(data)\<close> is the loop over the offsets 0, 1400, 2800, ... below \<^verbatim>\<open>len(data)\<close>.
  From any offset \<open>i\<close>, as long as the sequence numbers fit in 32 bits, the loop
  either returns after the last chunk or is suspended inside \<^verbatim>\<open>_send\<close> at the first
  chunk for which no permit is left; it goes on from a suspension at that offset. In
  both cases the \<open>m\<close> chunks it has handed to \<^verbatim>\<open>_send\<close> are consecutive pieces of 1 to 1400
  bytes of \<open>data\<close>, in order (all of \<open>data\<close> from \<open>i\<close> on when the loop returns), and the
  \<open>j\<close>-th of them went to the link as the DATA packet with the sequence number
  \<^verbatim>\<open>last_frame_sent + 1 + j\<close>. A fresh sender given 3000 bytes hands the link exactly
  three DATA packets, with the sequence numbers 1, 2, 3 and payloads of 1400, 1400
  and 200 bytes.
\<close>

theorem sender_send_segments:
  "sender_send s data = sender_send_from s data 0
   \<and> (0 \<le> last_frame_sent s
        \<and> last_frame_sent s + int ((length data - i + 1399) div 1400) < 2 ^ 32 \<longrightarrow>
      (\<exists>s' m new.
         (sender_send_from s data i = Sent s'
            \<and> concat (map (\<lambda>j. take MAX_DATA_SIZE (drop (i + MAX_DATA_SIZE * j) data)) [0..<m])
                = drop i data
          \<or> sender_send_from s data i = Suspended s' (i + MAX_DATA_SIZE * m)
            \<and> i + MAX_DATA_SIZE * m < length data \<and> send_window_not_full s' = 0
            \<and> concat (map (\<lambda>j. take MAX_DATA_SIZE (drop (i + MAX_DATA_SIZE * j) data)) [0..<m])
                = take (MAX_DATA_SIZE * m) (drop i data))
         \<and> (\<forall>j<m. 0 < length (take MAX_DATA_SIZE (drop (i + MAX_DATA_SIZE * j) data))
                  \<and> length (take MAX_DATA_SIZE (drop (i + MAX_DATA_SIZE * j) data))
                      \<le> MAX_DATA_SIZE)
         \<and> MAX_DATA_SIZE = 1400
         \<and> send_window_not_full s' + m = send_window_not_full s
         \<and> last_frame_sent s' = last_frame_sent s + int m
         \<and> llp_sent s' = llp_sent s @ new
         \<and> map Inr new =
             map (\<lambda>j. to_bytes \<lparr>pkt_type = DATA,
                                 pkt_seq_num = last_frame_sent s + 1 + int j,
                                 pkt_data = take MAX_DATA_SIZE
                                              (drop (i + MAX_DATA_SIZE * j) data)\<rparr>) [0..<m]))
   \<and> (length data = 3000 \<longrightarrow>
      (\<exists>s'. sender_send SWPSender_init data = Sent s'
         \<and> llp_sent s' = [[0x44, 0, 0, 0, 1] @ take 1400 data,
                           [0x44, 0, 0, 0, 2] @ take 1400 (drop 1400 data),
                           [0x44, 0, 0, 0, 3] @ drop 2800 data]
         \<and> length (take 1400 data) = 1400
         \<and> length (take 1400 (drop 1400 data)) = 1400
         \<and> length (drop 2800 data) = 200
         \<and> last_frame_sent s' = 3))"
proof (intro conjI impI)
  show "sender_send s data = sender_send_from s data 0"
    by (simp add: sender_send_def)
next
  assume "length data = 3000"
  with sender_send_3000 [OF this]
  show "\<exists>s'. sender_send SWPSender_init data = Sent s'
         \<and> llp_sent s' = [[0x44, 0, 0, 0, 1] @ take 1400 data,
                           [0x44, 0, 0, 0, 2] @ take 1400 (drop 1400 data),
                           [0x44, 0, 0, 0, 3] @ drop 2800 data]
         \<and> length (take 1400 data) = 1400
         \<and> length (take 1400 (drop 1400 data)) = 1400
         \<and> length (drop 2800 data) = 200
         \<and> last_frame_sent s' = 3"
    by auto
next
  assume "0 \<le> last_frame_sent s
        \<and> last_frame_sent s + int ((length data - i + 1399) div 1400) < 2 ^ 32"
  then have "0 \<le> last_frame_sent s"
    and "last_frame_sent s + int ((length data - i + 1399) div 1400) < 2 ^ 32"
    by simp_all
  from sender_send_from_spec [OF this] obtain s' m new where
    res: "sender_send_from s data i = Sent s' \<and> m = (length data - i + 1399) div 1400
          \<or> sender_send_from s data i = Suspended s' (i + 1400 * m)
            \<and> i + 1400 * m < length data \<and> send_window_not_full s' = 0"
    and rest: "send_window_not_full s' + m = send_window_not_full s"
      "last_frame_sent s' = last_frame_sent s + int m"
      "llp_sent s' = llp_sent s @ new"
      "map Inr new =
         map (\<lambda>j. to_bytes \<lparr>pkt_type = DATA,
                             pkt_seq_num = last_frame_sent s + 1 + int j,
                             pkt_data = take 1400 (drop (i + 1400 * j) data)\<rparr>) [0..<m]"
    by blast
  note cc = concat_chunks [of 1400 i data m]
  have all: "concat (map (\<lambda>j. take 1400 (drop (i + 1400 * j) data)) [0..<m]) = drop i data"
    if "m = (length data - i + 1399) div 1400"
  proof -
    have "take (1400 * m) (drop i data) = drop i data"
      using chunks_cover [of data i] by (simp add: that)
    with cc show ?thesis
      by simp
  qed
  have inside: "i + 1400 * j < length data" if "j < m" for j
    using res
  proof
    assume "sender_send_from s data i = Sent s' \<and> m = (length data - i + 1399) div 1400"
    with that show ?thesis by (simp add: chunks_nonempty)
  next
    assume "sender_send_from s data i = Suspended s' (i + 1400 * m)
            \<and> i + 1400 * m < length data \<and> send_window_not_full s' = 0"
    with that show ?thesis by simp
  qed
  have sizes: "\<forall>j<m. 0 < length (take 1400 (drop (i + 1400 * j) data))
                  \<and> length (take 1400 (drop (i + 1400 * j) data)) \<le> 1400"
    using inside by simp
  show "\<exists>s' m new.
         (sender_send_from s data i = Sent s'
            \<and> concat (map (\<lambda>j. take MAX_DATA_SIZE (drop (i + MAX_DATA_SIZE * j) data)) [0..<m])
                = drop i data
          \<or> sender_send_from s data i = Suspended s' (i + MAX_DATA_SIZE * m)
            \<and> i + MAX_DATA_SIZE * m < length data \<and> send_window_not_full s' = 0
            \<and> concat (map (\<lambda>j. take MAX_DATA_SIZE (drop (i + MAX_DATA_SIZE * j) data)) [0..<m])
                = take (MAX_DATA_SIZE * m) (drop i data))
         \<and> (\<forall>j<m. 0 < length (take MAX_DATA_SIZE (drop (i + MAX_DATA_SIZE * j) data))
                  \<and> length (take MAX_DATA_SIZE (drop (i + MAX_DATA_SIZE * j) data))
                      \<le> MAX_DATA_SIZE)
         \<and> MAX_DATA_SIZE = 1400
         \<and> send_window_not_full s' + m = send_window_not_full s
         \<and> last_frame_sent s' = last_frame_sent s + int m
         \<and> llp_sent s' = llp_sent s @ new
         \<and> map Inr new =
             map (\<lambda>j. to_bytes \<lparr>pkt_type = DATA,
                                 pkt_seq_num = last_frame_sent s + 1 + int j,
                                 pkt_data = take MAX_DATA_SIZE
                                              (drop (i + MAX_DATA_SIZE * j) data)\<rparr>) [0..<m]"
    unfolding MAX_DATA_SIZE_def
    using res all cc sizes rest
    by (intro exI [of _ s'] exI [of _ m] exI [of _ new]) blast
qed

theorem sender_send_segments_witness:
  "(\<exists>(s' :: SWPSender) m. send_window_not_full s' + m = 5 \<and> last_frame_sent s' = int m)
   \<and> (\<exists>s'. sender_send SWPSender_init (replicate 3000 0x61) = Sent s'
         \<and> llp_sent s' = [[0x44, 0, 0, 0, 1] @ replicate 1400 0x61,
                           [0x44, 0, 0, 0, 2] @ replicate 1400 0x61,
                           [0x44, 0, 0, 0, 3] @ replicate 200 0x61]
         \<and> last_frame_sent s' = 3)"
proof -
  let ?data = "replicate 3000 (0x61 :: byte)"
  note inst = sender_send_segments [of SWPSender_init ?data 0]
  have h1: "0 \<le> last_frame_sent SWPSender_init
        \<and> last_frame_sent SWPSender_init + int ((length ?data - 0 + 1399) div 1400) < 2 ^ 32"
    by (simp add: SWPSender_init_def)
  have h2: "length ?data = 3000"
    by simp
  from inst [THEN conjunct2, THEN conjunct1, rule_format, OF h1]
  have 1: "\<exists>(s' :: SWPSender) m. send_window_not_full s' + m = 5 \<and> last_frame_sent s' = int m"
  proof (elim exE conjE)
    fix s' :: SWPSender and m :: nat
    assume "send_window_not_full s' + m = send_window_not_full SWPSender_init"
      and "last_frame_sent s' = last_frame_sent SWPSender_init + int m"
    then have "send_window_not_full s' + m = 5 \<and> last_frame_sent s' = int m"
      by (simp add: SWPSender_init_def SEND_WINDOW_SIZE_def)
    then show ?thesis
      by blast
  qed
  from inst [THEN conjunct2, THEN conjunct2, rule_format, OF h2]
  have 2: "\<exists>s'. sender_send SWPSender_init ?data = Sent s'
         \<and> llp_sent s' = [[0x44, 0, 0, 0, 1] @ replicate 1400 0x61,
                           [0x44, 0, 0, 0, 2] @ replicate 1400 0x61,
                           [0x44, 0, 0, 0, 3] @ replicate 200 0x61]
         \<and> last_frame_sent s' = 3"
    by simp
  from 1 2 show ?thesis ..
qed

end
